theory Spec2Isabelle
  imports Main "HOL-Library.Word"
begin

unbundle bit_operations_syntax

section \<open>The packet codec of package tcplib\<close>

text \<open>
  The Go source declares a wire format for a TCP service: a start byte, a 13-byte
  header, a body and an end byte, written and read through \<open>encoding/binary\<close> in big-endian
  order over a \<open>bufio.Writer\<close> and a \<open>bufio.Reader\<close>. This theory embeds the packet type, its
  two methods, the encoder and the decoder, together with the part of the Go standard library
  they call, and proves the properties of the codec.

  Go's \<open>uint8\<close>, \<open>uint16\<close> and \<open>uint32\<close> are words of that width: arithmetic wraps
  around. A \<open>[]byte\<close> is the list of its bytes (a nil slice and an empty slice are both the
  empty list). The platform is a 64-bit one, where every \<open>uint32\<close> is a legal slice length;
  memory exhaustion is outside the model.
\<close>

type_synonym uint8 = "8 word"
type_synonym uint16 = "16 word"
type_synonym uint32 = "32 word"

subsection \<open>Errors\<close>

text \<open>
  The error values that can reach a caller of the codec: \<open>io.EOF\<close>,
  \<open>io.ErrUnexpectedEOF\<close>, \<open>io.ErrShortWrite\<close>, and an error made by \<open>errors.New\<close>
  from a text (also what a failing transport reports).
\<close>

datatype error = EOF | ErrUnexpectedEOF | ErrShortWrite | ErrorString string

subsection \<open>Constants and the packet type\<close>

definition HeaderLen :: uint32 where "HeaderLen = 13"
definition SohLen :: uint32 where "SohLen = 1"
definition EohLen :: uint32 where "EohLen = 2"

record Header =
  Seq :: uint32
  ErrCode :: uint16
  PacketLen :: uint32
  Version :: uint8
  CheckSum :: uint16

text \<open>
  \<open>CustomPacket\<close> embeds \<open>Header\<close>; the embedded struct is the field \<open>Header\<close>, and Go's
  \<open>p.Seq\<close> is \<open>Seq (Header p)\<close>.
\<close>

record CustomPacket =
  SOH :: uint8
  Header :: Header
  Body :: "uint8 list"
  EOH :: uint8

text \<open>
  A value of the interface \<open>Packet\<close> is either a pointer to a \<open>CustomPacket\<close> or a value of
  some other implementation, of which the codec knows nothing (the nil interface value is one
  of these: the type assertion in \<open>Encode\<close> fails on it too). The pointer points to a packet;
  a nil \<open>*CustomPacket\<close> is not a packet value of the model.
\<close>

datatype 'a Packet = CustomPacketPtr CustomPacket | OtherPacket 'a

definition ID :: "CustomPacket \<Rightarrow> uint32" where
  "ID p = Seq (Header p)"

text \<open>\<open>uint16(code)\<close> keeps the low 16 bits of \<open>code\<close>.\<close>

definition SetErrCode :: "uint32 \<Rightarrow> CustomPacket \<Rightarrow> CustomPacket" where
  "SetErrCode code p = p\<lparr>Header := (Header p)\<lparr>ErrCode := ucast code\<rparr>\<rparr>"

subsection \<open>Big-endian byte order (\<open>binary.BigEndian\<close>)\<close>

definition PutUint16 :: "uint16 \<Rightarrow> uint8 list" where
  "PutUint16 v = [ucast (drop_bit 8 v), ucast v]"

definition PutUint32 :: "uint32 \<Rightarrow> uint8 list" where
  "PutUint32 v = [ucast (drop_bit 24 v), ucast (drop_bit 16 v), ucast (drop_bit 8 v), ucast v]"

text \<open>
  \<open>Uint16\<close> and \<open>Uint32\<close> index the slice as the library does; they are only applied to
  slices of the full width.
\<close>

definition Uint16 :: "uint8 list \<Rightarrow> uint16" where
  "Uint16 b = ucast (b ! 1) OR push_bit 8 (ucast (b ! 0))"

definition Uint32 :: "uint8 list \<Rightarrow> uint32" where
  "Uint32 b = ucast (b ! 3) OR push_bit 8 (ucast (b ! 2)) OR push_bit 16 (ucast (b ! 1))
     OR push_bit 24 (ucast (b ! 0))"

text \<open>
  \<open>binary.Write\<close> and \<open>binary.Read\<close> lay a struct out field by field in declaration order,
  with no padding: 4 + 2 + 4 + 1 + 2 = 13 bytes for \<open>Header\<close>.
\<close>

definition encode_Header :: "Header \<Rightarrow> uint8 list" where
  "encode_Header h =
     PutUint32 (Seq h) @ PutUint16 (ErrCode h) @ PutUint32 (PacketLen h) @ [Version h]
       @ PutUint16 (CheckSum h)"

definition decode_Header :: "uint8 list \<Rightarrow> Header" where
  "decode_Header bs =
     \<lparr>Seq = Uint32 (take 4 bs),
      ErrCode = Uint16 (take 2 (drop 4 bs)),
      PacketLen = Uint32 (take 4 (drop 6 bs)),
      Version = bs ! 10,
      CheckSum = Uint16 (take 2 (drop 11 bs))\<rparr>"

subsection \<open>The byte source\<close>

text \<open>
  A \<open>bufio.Reader\<close> over a source that delivers the bytes \<open>pending\<close> in order and then
  reports the error \<open>closing\<close> (\<open>EOF\<close> for a source that is closed at its end). Read-ahead into
  the buffer does not change which bytes a caller sees, so the buffer is not a separate
  component. \<open>NewReaderSize\<close> replaces a size below 16 by 16.
\<close>

record Reader =
  pending :: "uint8 list"
  closing :: error
  capacity :: nat

definition NewReaderSize :: "uint8 list \<Rightarrow> error \<Rightarrow> int \<Rightarrow> Reader" where
  "NewReaderSize bs e n = \<lparr>pending = bs, closing = e, capacity = (if n < 16 then 16 else nat n)\<rparr>"

text \<open>
  \<open>io.ReadFull\<close> of \<open>n\<close> bytes: the bytes when there are that many (none are needed for
  \<open>n = 0\<close>, and no read is made); otherwise the source's bytes are used up and the error is the
  source's, with \<open>EOF\<close> after some bytes turned into \<open>ErrUnexpectedEOF\<close>.
\<close>

definition ReadFull :: "nat \<Rightarrow> Reader \<Rightarrow> (error + uint8 list) \<times> Reader" where
  "ReadFull n r =
     (if n \<le> length (pending r)
      then (Inr (take n (pending r)), r\<lparr>pending := drop n (pending r)\<rparr>)
      else (Inl (if pending r \<noteq> [] \<and> closing r = EOF then ErrUnexpectedEOF else closing r),
            r\<lparr>pending := []\<rparr>))"

record CustomPacketDecoder =
  br :: Reader

definition defaultMessageDecoder :: "uint8 list \<Rightarrow> error \<Rightarrow> int \<Rightarrow> CustomPacketDecoder" where
  "defaultMessageDecoder bs e bufferSize = \<lparr>br = NewReaderSize bs e bufferSize\<rparr>"

subsection \<open>Decode\<close>

definition bodyLen :: "Header \<Rightarrow> uint32" where
  "bodyLen h = PacketLen h - HeaderLen - SohLen - EohLen"

definition Decode :: "CustomPacketDecoder \<Rightarrow> (error + 'a Packet) \<times> CustomPacketDecoder" where
  "Decode d =
     (case ReadFull 1 (br d) of
        (Inl err, r1) \<Rightarrow> (Inl err, d\<lparr>br := r1\<rparr>)
      | (Inr s, r1) \<Rightarrow>
     (case ReadFull 13 r1 of
        (Inl err, r2) \<Rightarrow> (Inl err, d\<lparr>br := r2\<rparr>)
      | (Inr hs, r2) \<Rightarrow>
     (let h = decode_Header hs in
      case ReadFull (unat (bodyLen h)) r2 of
        (Inl err, r3) \<Rightarrow> (Inl err, d\<lparr>br := r3\<rparr>)
      | (Inr body, r3) \<Rightarrow>
     (case ReadFull 1 r3 of
        (Inl err, r4) \<Rightarrow> (Inl err, d\<lparr>br := r4\<rparr>)
      | (Inr t, r4) \<Rightarrow>
          (Inr (CustomPacketPtr \<lparr>SOH = s ! 0, Header = h, Body = body, EOH = t ! 0\<rparr>),
           d\<lparr>br := r4\<rparr>)))))"

subsection \<open>The byte sink\<close>

text \<open>
  The transport under the \<open>bufio.Writer\<close>: the bytes it has accepted so far, and how many
  more it accepts before it fails (\<open>None\<close>: it never fails). A failing write accepts what still
  fits and reports the error \<open>failure\<close>.
\<close>

record Sink =
  delivered :: "uint8 list"
  quota :: "nat option"
  failure :: error

definition sink_Write :: "uint8 list \<Rightarrow> Sink \<Rightarrow> (nat \<times> error option) \<times> Sink" where
  "sink_Write p s =
     (case quota s of
        None \<Rightarrow> ((length p, None), s\<lparr>delivered := delivered s @ p\<rparr>)
      | Some q \<Rightarrow>
          if length p \<le> q
          then ((length p, None), s\<lparr>delivered := delivered s @ p, quota := Some (q - length p)\<rparr>)
          else ((q, Some (failure s)), s\<lparr>delivered := delivered s @ take q p, quota := Some 0\<rparr>))"

text \<open>
  \<open>bufio.Writer\<close>: \<open>buf\<close> is the buffered part \<open>b.buf[0:b.n]\<close>, \<open>size\<close> is \<open>len(b.buf)\<close>,
  \<open>werr\<close> the sticky error \<open>b.err\<close>. \<open>NewWriterSize\<close> replaces a size that is not positive by 4096.
\<close>

record Writer =
  wr :: Sink
  buf :: "uint8 list"
  size :: nat
  werr :: "error option"

definition NewWriterSize :: "Sink \<Rightarrow> int \<Rightarrow> Writer" where
  "NewWriterSize w n = \<lparr>wr = w, buf = [], size = (if n \<le> 0 then 4096 else nat n), werr = None\<rparr>"

definition Available :: "Writer \<Rightarrow> nat" where
  "Available b = size b - length (buf b)"

definition bufio_Flush :: "Writer \<Rightarrow> error option \<times> Writer" where
  "bufio_Flush b =
     (case werr b of
        Some e \<Rightarrow> (Some e, b)
      | None \<Rightarrow>
          if buf b = [] then (None, b)
          else (case sink_Write (buf b) (wr b) of
                  ((n, e), s) \<Rightarrow>
                    (case (if n < length (buf b) \<and> e = None then Some ErrShortWrite else e) of
                       Some x \<Rightarrow> (Some x, b\<lparr>wr := s, buf := drop n (buf b), werr := Some x\<rparr>)
                     | None \<Rightarrow> (None, b\<lparr>wr := s, buf := []\<rparr>))))"

text \<open>
  One round of the loop of \<open>Writer.Write\<close>, entered while the data does not fit into the
  free part of the buffer and no error is set: with an empty buffer the data goes to the
  transport directly, otherwise the buffer is filled up and flushed. The result is the number
  of bytes taken from the data and the new writer.
\<close>

definition Write_round :: "uint8 list \<Rightarrow> Writer \<Rightarrow> nat \<times> Writer" where
  "Write_round p b =
     (if buf b = []
      then (case sink_Write p (wr b) of ((n, e), s) \<Rightarrow> (n, b\<lparr>wr := s, werr := e\<rparr>))
      else (let n = min (Available b) (length p)
            in (n, snd (bufio_Flush (b\<lparr>buf := buf b @ take n p\<rparr>)))))"

function bufio_Write :: "uint8 list \<Rightarrow> Writer \<Rightarrow> error option \<times> Writer" where
  "bufio_Write p b =
     (if length p > Available b \<and> werr b = None
      then bufio_Write (drop (fst (Write_round p b)) p) (snd (Write_round p b))
      else (case werr b of
              Some e \<Rightarrow> (Some e, b)
            | None \<Rightarrow> (None, b\<lparr>buf := buf b @ p\<rparr>)))"
  by pat_completeness auto
termination
proof (relation "measures [\<lambda>(p, b). if werr b = None then 1 else 0,
                           \<lambda>(p, b). length p,
                           \<lambda>(p, b). if buf b = [] then 0 else 1]")
  show "wf (measures [\<lambda>(p, b). if werr b = None then 1 else 0,
                      \<lambda>(p, b). length p,
                      \<lambda>(p, b :: Writer). if buf b = [] then 0 else (1::nat)])"
    by simp
next
  fix p :: "uint8 list" and b :: Writer
  assume "length p > Available b \<and> werr b = None"
  then show "((drop (fst (Write_round p b)) p, snd (Write_round p b)), (p, b))
       \<in> measures [\<lambda>(p, b). if werr b = None then 1 else 0,
                    \<lambda>(p, b). length p,
                    \<lambda>(p, b). if buf b = [] then 0 else 1]"
    by (auto simp add: Write_round_def sink_Write_def bufio_Flush_def Let_def
          split: option.splits if_splits prod.splits)
qed

declare bufio_Write.simps [simp del]

text \<open>\<open>binary.Write\<close> hands the encoded bytes to the writer in one \<open>Write\<close> call.\<close>

record CustomPacketEncoder =
  bw :: Writer

definition defaultMessageEncoder :: "Sink \<Rightarrow> int \<Rightarrow> CustomPacketEncoder" where
  "defaultMessageEncoder w bufferSize = \<lparr>bw = NewWriterSize w bufferSize\<rparr>"

subsection \<open>Encode and Flush\<close>

definition Encode :: "'a Packet \<Rightarrow> CustomPacketEncoder \<Rightarrow> error option \<times> CustomPacketEncoder" where
  "Encode p e =
     (case p of
        CustomPacketPtr packet \<Rightarrow>
          (case bufio_Write [SOH packet] (bw e) of
             (Some err, w1) \<Rightarrow> (Some err, e\<lparr>bw := w1\<rparr>)
           | (None, w1) \<Rightarrow>
          (case bufio_Write (encode_Header (Header packet)) w1 of
             (Some err, w2) \<Rightarrow> (Some err, e\<lparr>bw := w2\<rparr>)
           | (None, w2) \<Rightarrow>
          (case bufio_Write (Body packet) w2 of
             (Some err, w3) \<Rightarrow> (Some err, e\<lparr>bw := w3\<rparr>)
           | (None, w3) \<Rightarrow>
          (case bufio_Write [EOH packet] w3 of
             (Some err, w4) \<Rightarrow> (Some err, e\<lparr>bw := w4\<rparr>)
           | (None, w4) \<Rightarrow> (None, e\<lparr>bw := w4\<rparr>)))))
      | OtherPacket _ \<Rightarrow> (Some (ErrorString ''SelfPacketEncoder Encode occur error''), e))"

text \<open>
  An encoder made by \<open>defaultMessageEncoder\<close> always has a writer, so the field \<open>bw\<close> is
  a writer and not a pointer that may be nil, and the test \<open>e.bw != nil\<close> of \<open>Flush\<close> holds.
\<close>

definition Flush :: "CustomPacketEncoder \<Rightarrow> error option \<times> CustomPacketEncoder" where
  "Flush e = (case bufio_Flush (bw e) of
                (Some err, w) \<Rightarrow> (Some err, e\<lparr>bw := w\<rparr>)
              | (None, w) \<Rightarrow> (None, e\<lparr>bw := w\<rparr>))"

subsection \<open>Notions used in the proofs\<close>

text \<open>
  All bytes a writer has taken so far, in order: those passed on to the transport followed by
  those still buffered. A writer is healthy when no error is set and its transport never fails.
  The frame of a packet is the byte string that \<open>Encode\<close> writes for it.
\<close>

definition written :: "Writer \<Rightarrow> uint8 list" where
  "written b = delivered (wr b) @ buf b"

definition healthy :: "Writer \<Rightarrow> bool" where
  "healthy b = (werr b = None \<and> quota (wr b) = None)"

definition frame :: "CustomPacket \<Rightarrow> uint8 list" where
  "frame p = SOH p # encode_Header (Header p) @ Body p @ [EOH p]"

section \<open>Lemmas\<close>

subsection \<open>Byte order and header\<close>

lemma Uint32_PutUint32: "Uint32 (PutUint32 w) = w"
proof -
  have "(ucast (ucast w :: 8 word) :: 32 word) OR push_bit 8 (ucast (ucast (drop_bit 8 w) :: 8 word))
     OR push_bit 16 (ucast (ucast (drop_bit 16 w) :: 8 word))
     OR push_bit 24 (ucast (ucast (drop_bit 24 w) :: 8 word)) = w"
  proof (rule bit_word_eqI)
    fix n :: nat
    assume "n < LENGTH(32)"
    then have "n < 32" by simp
    then consider "n < 8" | "8 \<le> n" "n < 16" | "16 \<le> n" "n < 24" | "24 \<le> n" "n < 32"
      by linarith
    then show "bit (ucast (ucast w :: 8 word) OR push_bit 8 (ucast (ucast (drop_bit 8 w) :: 8 word))
        OR push_bit 16 (ucast (ucast (drop_bit 16 w) :: 8 word))
        OR push_bit 24 (ucast (ucast (drop_bit 24 w) :: 8 word)) :: 32 word) n = bit w n"
      by cases (auto simp add: bit_simps)
  qed
  then show ?thesis by (simp add: Uint32_def PutUint32_def)
qed

lemma Uint16_PutUint16: "Uint16 (PutUint16 w) = w"
proof -
  have "(ucast (ucast w :: 8 word) :: 16 word) OR push_bit 8 (ucast (ucast (drop_bit 8 w) :: 8 word)) = w"
    by (rule bit_word_eqI) (auto simp add: bit_simps)
  then show ?thesis by (simp add: Uint16_def PutUint16_def)
qed

lemma length_PutUint32 [simp]: "length (PutUint32 w) = 4"
  by (simp add: PutUint32_def)

lemma length_PutUint16 [simp]: "length (PutUint16 w) = 2"
  by (simp add: PutUint16_def)

lemma length_encode_Header [simp]: "length (encode_Header h) = 13"
  by (simp add: encode_Header_def)

lemma decode_encode_Header: "decode_Header (encode_Header h) = h"
proof -
  have "Version h = encode_Header h ! 10"
    by (simp add: encode_Header_def PutUint32_def PutUint16_def)
  then show ?thesis
    by (simp add: decode_Header_def encode_Header_def Uint32_PutUint32 Uint16_PutUint16)
qed

lemma PutUint32_bytes:
  "map unat (PutUint32 v)
     = [unat v div 2 ^ 24 mod 256, unat v div 2 ^ 16 mod 256, unat v div 2 ^ 8 mod 256,
        unat v mod 256]"
  by (simp add: PutUint32_def unsigned_ucast_eq take_bit_eq_mod unat_drop_bit_eq drop_bit_nat_def)

lemma PutUint16_bytes:
  "map unat (PutUint16 v) = [unat v div 2 ^ 8 mod 256, unat v mod 256]"
  by (simp add: PutUint16_def unsigned_ucast_eq take_bit_eq_mod unat_drop_bit_eq drop_bit_nat_def)

subsection \<open>Body length\<close>

lemma bodyLen_16: "bodyLen h = PacketLen h - 16"
  by (simp add: bodyLen_def HeaderLen_def SohLen_def EohLen_def)

lemma unat_bodyLen:
  "unat (bodyLen h) = (if 16 \<le> unat (PacketLen h) then unat (PacketLen h) - 16
                       else unat (PacketLen h) + 4294967280)"
  by (simp add: bodyLen_16 unat_sub_if')

lemma unat_bodyLen_consistent:
  assumes "unat (PacketLen h) = 16 + n"
  shows "unat (bodyLen h) = n"
  using assms by (simp add: unat_bodyLen)

subsection \<open>Reading\<close>

lemma ReadFull_enough:
  "length xs = n \<Longrightarrow>
   ReadFull n \<lparr>pending = xs @ ys, closing = c, capacity = k\<rparr>
     = (Inr xs, \<lparr>pending = ys, closing = c, capacity = k\<rparr>)"
  by (simp add: ReadFull_def)

lemma ReadFull_short:
  "length xs < n \<Longrightarrow>
   ReadFull n \<lparr>pending = xs, closing = c, capacity = k\<rparr>
     = (Inl (if xs \<noteq> [] \<and> c = EOF then ErrUnexpectedEOF else c),
        \<lparr>pending = [], closing = c, capacity = k\<rparr>)"
  by (simp add: ReadFull_def)

lemma default_decoder:
  "defaultMessageDecoder bs c m = \<lparr>br = \<lparr>pending = bs, closing = c, capacity = (if m < 16 then 16 else nat m)\<rparr>\<rparr>"
  by (simp add: defaultMessageDecoder_def NewReaderSize_def)

lemma Decode_frame:
  assumes "unat (bodyLen h) = length body"
  shows "Decode \<lparr>br = \<lparr>pending = s # encode_Header h @ body @ t # rest, closing = c, capacity = k\<rparr>\<rparr>
     = (Inr (CustomPacketPtr \<lparr>SOH = s, Header = h, Body = body, EOH = t\<rparr>),
        \<lparr>br = \<lparr>pending = rest, closing = c, capacity = k\<rparr>\<rparr>)"
proof -
  have 1: "ReadFull 1 \<lparr>pending = [s] @ (encode_Header h @ body @ t # rest), closing = c, capacity = k\<rparr>
      = (Inr [s], \<lparr>pending = encode_Header h @ body @ t # rest, closing = c, capacity = k\<rparr>)"
    by (rule ReadFull_enough) simp
  have 2: "ReadFull 13 \<lparr>pending = encode_Header h @ (body @ t # rest), closing = c, capacity = k\<rparr>
      = (Inr (encode_Header h), \<lparr>pending = body @ t # rest, closing = c, capacity = k\<rparr>)"
    by (rule ReadFull_enough) simp
  have 3: "ReadFull (unat (bodyLen h)) \<lparr>pending = body @ (t # rest), closing = c, capacity = k\<rparr>
      = (Inr body, \<lparr>pending = t # rest, closing = c, capacity = k\<rparr>)"
    by (rule ReadFull_enough) (simp add: assms)
  have 4: "ReadFull 1 \<lparr>pending = [t] @ rest, closing = c, capacity = k\<rparr>
      = (Inr [t], \<lparr>pending = rest, closing = c, capacity = k\<rparr>)"
    by (rule ReadFull_enough) simp
  show ?thesis
    using 1 2 3 4 by (simp add: Decode_def decode_encode_Header)
qed

lemma Decode_default_frame:
  assumes "unat (bodyLen h) = length body"
  shows "Decode (defaultMessageDecoder (s # encode_Header h @ body @ t # rest) c m)
     = (Inr (CustomPacketPtr \<lparr>SOH = s, Header = h, Body = body, EOH = t\<rparr>),
        defaultMessageDecoder rest c m)"
  unfolding default_decoder using assms by (rule Decode_frame)

lemma Decode_frame_packet:
  assumes "unat (PacketLen (Header p)) = 16 + length (Body p)"
  shows "Decode (defaultMessageDecoder (frame p @ rest) c m)
     = (Inr (CustomPacketPtr p), defaultMessageDecoder rest c m)"
proof -
  have "unat (bodyLen (Header p)) = length (Body p)"
    using assms by (rule unat_bodyLen_consistent)
  then have "Decode (defaultMessageDecoder
        (SOH p # encode_Header (Header p) @ Body p @ EOH p # rest) c m)
     = (Inr (CustomPacketPtr \<lparr>SOH = SOH p, Header = Header p, Body = Body p, EOH = EOH p\<rparr>),
        defaultMessageDecoder rest c m)"
    by (rule Decode_default_frame)
  then show ?thesis by (cases p) (simp add: frame_def)
qed

lemma Decode_truncated:
  assumes "length bs = 14"
  shows "Decode \<lparr>br = \<lparr>pending = bs, closing = c, capacity = k\<rparr>\<rparr>
     = (Inl c, \<lparr>br = \<lparr>pending = [], closing = c, capacity = k\<rparr>\<rparr>)"
proof -
  from assms obtain s hs where bs: "bs = s # hs" and hs: "length hs = 13"
    by (cases bs) simp_all
  have 1: "ReadFull 1 \<lparr>pending = s # hs, closing = c, capacity = k\<rparr>
      = (Inr [s], \<lparr>pending = hs, closing = c, capacity = k\<rparr>)"
    using ReadFull_enough [of "[s]" 1 hs c k] by simp
  have 2: "ReadFull 13 \<lparr>pending = hs, closing = c, capacity = k\<rparr>
      = (Inr hs, \<lparr>pending = [], closing = c, capacity = k\<rparr>)"
    using ReadFull_enough [of hs 13 "[]" c k] hs by simp
  have 3: "ReadFull j \<lparr>pending = [], closing = c, capacity = k\<rparr>
      = (if j = 0 then Inr [] else Inl c, \<lparr>pending = [], closing = c, capacity = k\<rparr>)" for j
    by (simp add: ReadFull_def)
  show ?thesis
    using 1 2 by (simp add: bs Decode_def 3 Let_def)
qed

lemma Decode_body_short:
  assumes "length rest < unat (bodyLen h)"
  shows "Decode \<lparr>br = \<lparr>pending = s # encode_Header h @ rest, closing = c, capacity = k\<rparr>\<rparr>
     = (Inl (if rest \<noteq> [] \<and> c = EOF then ErrUnexpectedEOF else c),
        \<lparr>br = \<lparr>pending = [], closing = c, capacity = k\<rparr>\<rparr>)"
proof -
  have 1: "ReadFull 1 \<lparr>pending = s # encode_Header h @ rest, closing = c, capacity = k\<rparr>
      = (Inr [s], \<lparr>pending = encode_Header h @ rest, closing = c, capacity = k\<rparr>)"
    using ReadFull_enough [of "[s]" 1 "encode_Header h @ rest" c k] by simp
  have 2: "ReadFull 13 \<lparr>pending = encode_Header h @ rest, closing = c, capacity = k\<rparr>
      = (Inr (encode_Header h), \<lparr>pending = rest, closing = c, capacity = k\<rparr>)"
    by (rule ReadFull_enough) simp
  have 3: "ReadFull (unat (bodyLen h)) \<lparr>pending = rest, closing = c, capacity = k\<rparr>
      = (Inl (if rest \<noteq> [] \<and> c = EOF then ErrUnexpectedEOF else c),
         \<lparr>pending = [], closing = c, capacity = k\<rparr>)"
    using assms by (rule ReadFull_short)
  show ?thesis
    using 1 2 3 by (simp add: Decode_def decode_encode_Header)
qed

lemma Decode_body_length:
  assumes "Decode d = (Inr (CustomPacketPtr q), d')"
  shows "length (Body q) = unat (bodyLen (Header q))"
  using assms
  by (auto simp add: Decode_def ReadFull_def Let_def split: prod.splits sum.splits if_splits)

subsection \<open>The buffered writer\<close>

lemma sink_Write_unbounded:
  "quota s = None \<Longrightarrow> sink_Write p s = ((length p, None), s\<lparr>delivered := delivered s @ p\<rparr>)"
  by (simp add: sink_Write_def)

lemma bufio_Flush_healthy:
  "healthy b \<Longrightarrow>
   bufio_Flush b = (None, b\<lparr>wr := (wr b)\<lparr>delivered := delivered (wr b) @ buf b\<rparr>, buf := []\<rparr>)"
  by (simp add: bufio_Flush_def healthy_def sink_Write_unbounded)

lemma Write_round_healthy:
  assumes "healthy b"
  shows "healthy (snd (Write_round p b))"
    and "written (snd (Write_round p b)) = written b @ take (fst (Write_round p b)) p"
    and "size (snd (Write_round p b)) = size b"
    and "failure (wr (snd (Write_round p b))) = failure (wr b)"
  using assms
  by (auto simp add: Write_round_def Let_def bufio_Flush_healthy healthy_def written_def
        sink_Write_unbounded)

lemma bufio_Write_healthy:
  "healthy b \<Longrightarrow>
   fst (bufio_Write p b) = None \<and> healthy (snd (bufio_Write p b))
   \<and> written (snd (bufio_Write p b)) = written b @ p
   \<and> size (snd (bufio_Write p b)) = size b
   \<and> failure (wr (snd (bufio_Write p b))) = failure (wr b)"
proof (induction p b rule: bufio_Write.induct)
  case (1 p b)
  show ?case
  proof (cases "length p > Available b \<and> werr b = None")
    case True
    have h: "healthy (snd (Write_round p b))"
      using "1.prems" by (rule Write_round_healthy)
    have eq: "bufio_Write p b
        = bufio_Write (drop (fst (Write_round p b)) p) (snd (Write_round p b))"
      using True by (subst bufio_Write.simps) simp
    from "1.IH" [OF True h] show ?thesis
      using "1.prems" by (simp add: eq Write_round_healthy)
  next
    case False
    with "1.prems" have "bufio_Write p b = (None, b\<lparr>buf := buf b @ p\<rparr>)"
      by (subst bufio_Write.simps) (simp add: healthy_def)
    with "1.prems" show ?thesis
      by (simp add: healthy_def written_def)
  qed
qed

lemma bufio_Write_fits:
  "werr b = None \<Longrightarrow> length p \<le> Available b \<Longrightarrow> bufio_Write p b = (None, b\<lparr>buf := buf b @ p\<rparr>)"
  by (subst bufio_Write.simps) simp

lemma bufio_Write_healthyE:
  assumes "healthy b"
  obtains b' where "bufio_Write p b = (None, b')" and "healthy b'"
    and "written b' = written b @ p" and "size b' = size b"
    and "failure (wr b') = failure (wr b)"
  using bufio_Write_healthy [OF assms, of p] by (cases "bufio_Write p b") simp

lemma sink_Write_prefix:
  assumes "sink_Write p s = ((n, e), s')"
  shows "delivered s' = delivered s @ take n p" and "n \<le> length p"
    and "e = None \<Longrightarrow> n = length p"
  using assms by (auto simp add: sink_Write_def split: option.splits if_splits)

lemma bufio_Flush_written: "written (snd (bufio_Flush b)) = written b"
proof (cases "sink_Write (buf b) (wr b)")
  case (Pair ne s')
  obtain n e where ne: "ne = (n, e)" by (cases ne)
  note sw = Pair [unfolded ne]
  show ?thesis
    using sink_Write_prefix [OF sw]
    by (auto simp add: bufio_Flush_def written_def sw split: option.splits)
qed

lemma Write_round_written:
  "written (snd (Write_round p b)) = written b @ take (fst (Write_round p b)) p"
  and Write_round_length: "fst (Write_round p b) \<le> length p"
proof -
  obtain n e s' where sw: "sink_Write p (wr b) = ((n, e), s')"
    by (cases "sink_Write p (wr b)") auto
  show "written (snd (Write_round p b)) = written b @ take (fst (Write_round p b)) p"
    using sink_Write_prefix [OF sw]
    by (simp add: Write_round_def sw Let_def bufio_Flush_written) (simp add: written_def)
  show "fst (Write_round p b) \<le> length p"
    using sink_Write_prefix [OF sw]
    by (simp add: Write_round_def sw Let_def)
qed

lemma bufio_Write_written:
  "\<exists>k\<le>length p. written (snd (bufio_Write p b)) = written b @ take k p
      \<and> (fst (bufio_Write p b) = None \<longrightarrow> k = length p)"
proof (induction p b rule: bufio_Write.induct)
  case (1 p b)
  show ?case
  proof (cases "length p > Available b \<and> werr b = None")
    case True
    let ?n = "fst (Write_round p b)" and ?b = "snd (Write_round p b)"
    have eq: "bufio_Write p b = bufio_Write (drop ?n p) ?b"
      using True by (subst bufio_Write.simps) simp
    from "1.IH" [OF True] obtain k where
      "k \<le> length (drop ?n p)
       \<and> written (snd (bufio_Write (drop ?n p) ?b)) = written ?b @ take k (drop ?n p)
       \<and> (fst (bufio_Write (drop ?n p) ?b) = None \<longrightarrow> k = length (drop ?n p))" ..
    then have k: "k \<le> length (drop ?n p)"
      and w: "written (snd (bufio_Write (drop ?n p) ?b)) = written ?b @ take k (drop ?n p)"
      and r: "fst (bufio_Write (drop ?n p) ?b) = None \<longrightarrow> k = length (drop ?n p)"
      by (rule conjunct1, rule conjunct2 [THEN conjunct1], rule conjunct2 [THEN conjunct2])
    have n: "?n \<le> length p" by (rule Write_round_length)
    have A: "?n + k \<le> length p" using k n by simp
    have "written (snd (bufio_Write p b)) = written ?b @ take k (drop ?n p)"
      by (simp only: eq w)
    also have "written ?b = written b @ take ?n p"
      by (rule Write_round_written)
    finally have B: "written (snd (bufio_Write p b)) = written b @ take (?n + k) p"
      by (simp only: take_add append_assoc)
    have C: "fst (bufio_Write p b) = None \<longrightarrow> ?n + k = length p"
    proof
      assume "fst (bufio_Write p b) = None"
      then have "fst (bufio_Write (drop ?n p) ?b) = None" by (simp only: eq)
      with r have "k = length (drop ?n p)" by simp
      with n show "?n + k = length p" by simp
    qed
    from A B C have "?n + k \<le> length p
       \<and> written (snd (bufio_Write p b)) = written b @ take (?n + k) p
       \<and> (fst (bufio_Write p b) = None \<longrightarrow> ?n + k = length p)"
      by (intro conjI)
    then show ?thesis by (rule exI [of _ "?n + k"])
  next
    case False
    then have eq: "bufio_Write p b
        = (case werr b of Some e \<Rightarrow> (Some e, b) | None \<Rightarrow> (None, b\<lparr>buf := buf b @ p\<rparr>))"
      by (subst bufio_Write.simps) (rule if_not_P)
    show ?thesis
    proof (cases "werr b")
      case None
      then have "length p \<le> length p
          \<and> written (snd (bufio_Write p b)) = written b @ take (length p) p
          \<and> (fst (bufio_Write p b) = None \<longrightarrow> length p = length p)"
        by (simp add: eq written_def)
      then show ?thesis by (rule exI [of _ "length p"])
    next
      case (Some x)
      then have "0 \<le> length p
          \<and> written (snd (bufio_Write p b)) = written b @ take 0 p
          \<and> (fst (bufio_Write p b) = None \<longrightarrow> 0 = length p)"
        by (simp add: eq)
      then show ?thesis by (rule exI [of _ 0])
    qed
  qed
qed

lemma bufio_Write_cases:
  obtains (ok) b' where "bufio_Write p b = (None, b')" and "written b' = written b @ p"
  | (failed) x b' k where "bufio_Write p b = (Some x, b')" and "k \<le> length p"
      and "written b' = written b @ take k p"
proof -
  obtain r b' where Pair: "bufio_Write p b = (r, b')"
    by (cases "bufio_Write p b")
  from bufio_Write_written [of p b] obtain k where
    "k \<le> length p \<and> written (snd (bufio_Write p b)) = written b @ take k p
      \<and> (fst (bufio_Write p b) = None \<longrightarrow> k = length p)" ..
  then have k: "k \<le> length p"
    and w: "written b' = written b @ take k p" and n: "r = None \<longrightarrow> k = length p"
    by (simp_all add: Pair)
  show ?thesis
  proof (cases r)
    case None
    with n w have "written b' = written b @ p" by simp
    with Pair None show ?thesis by (intro ok [of b']) simp_all
  next
    case (Some x)
    with Pair have "bufio_Write p b = (Some x, b')" by simp
    then show ?thesis using k w by (rule failed)
  qed
qed

subsection \<open>Encoding\<close>

lemma Encode_healthy:
  assumes "healthy (bw e)"
  obtains w where "Encode (CustomPacketPtr p :: 'a Packet) e = (None, e\<lparr>bw := w\<rparr>)"
    and "healthy w" and "written w = written (bw e) @ frame p"
    and "size w = size (bw e)" and "failure (wr w) = failure (wr (bw e))"
proof -
  obtain w1 where 1: "bufio_Write [SOH p] (bw e) = (None, w1)" and h1: "healthy w1"
    and c1: "written w1 = written (bw e) @ [SOH p]"
    and s1: "size w1 = size (bw e)" "failure (wr w1) = failure (wr (bw e))"
    using assms by (rule bufio_Write_healthyE)
  obtain w2 where 2: "bufio_Write (encode_Header (Header p)) w1 = (None, w2)" and h2: "healthy w2"
    and c2: "written w2 = written w1 @ encode_Header (Header p)"
    and s2: "size w2 = size w1" "failure (wr w2) = failure (wr w1)"
    using h1 by (rule bufio_Write_healthyE)
  obtain w3 where 3: "bufio_Write (Body p) w2 = (None, w3)" and h3: "healthy w3"
    and c3: "written w3 = written w2 @ Body p"
    and s3: "size w3 = size w2" "failure (wr w3) = failure (wr w2)"
    using h2 by (rule bufio_Write_healthyE)
  obtain w4 where 4: "bufio_Write [EOH p] w3 = (None, w4)" and h4: "healthy w4"
    and c4: "written w4 = written w3 @ [EOH p]"
    and s4: "size w4 = size w3" "failure (wr w4) = failure (wr w3)"
    using h3 by (rule bufio_Write_healthyE)
  have "Encode (CustomPacketPtr p :: 'a Packet) e = (None, e\<lparr>bw := w4\<rparr>)"
    by (simp add: Encode_def 1 2 3 4)
  moreover have "written w4 = written (bw e) @ frame p"
    by (simp add: c4 c3 c2 c1 frame_def)
  moreover have "size w4 = size (bw e)" "failure (wr w4) = failure (wr (bw e))"
    by (simp_all add: s1 s2 s3 s4)
  ultimately show ?thesis using h4 that by blast
qed

lemma Encode_fits:
  assumes "werr (bw e) = None" and "15 + length (Body p) \<le> Available (bw e)"
  shows "Encode (CustomPacketPtr p :: 'a Packet) e = (None, e\<lparr>bw := (bw e)\<lparr>buf := buf (bw e) @ frame p\<rparr>\<rparr>)"
proof -
  let ?b = "bw e"
  have 1: "bufio_Write [SOH p] ?b = (None, ?b\<lparr>buf := buf ?b @ [SOH p]\<rparr>)"
    using assms by (intro bufio_Write_fits) simp_all
  have 2: "bufio_Write (encode_Header (Header p)) (?b\<lparr>buf := buf ?b @ [SOH p]\<rparr>)
      = (None, ?b\<lparr>buf := buf ?b @ [SOH p] @ encode_Header (Header p)\<rparr>)"
    using assms by (subst bufio_Write_fits) (simp_all add: Available_def)
  have 3: "bufio_Write (Body p) (?b\<lparr>buf := buf ?b @ [SOH p] @ encode_Header (Header p)\<rparr>)
      = (None, ?b\<lparr>buf := buf ?b @ [SOH p] @ encode_Header (Header p) @ Body p\<rparr>)"
    using assms by (subst bufio_Write_fits) (simp_all add: Available_def)
  have 4: "bufio_Write [EOH p] (?b\<lparr>buf := buf ?b @ [SOH p] @ encode_Header (Header p) @ Body p\<rparr>)
      = (None, ?b\<lparr>buf := buf ?b @ [SOH p] @ encode_Header (Header p) @ Body p @ [EOH p]\<rparr>)"
    using assms by (subst bufio_Write_fits) (simp_all add: Available_def)
  show ?thesis
    using 1 2 3 4 by (simp add: Encode_def frame_def)
qed

lemma Flush_healthy:
  "healthy (bw e) \<Longrightarrow>
   Flush e = (None, e\<lparr>bw := (bw e)\<lparr>wr := (wr (bw e))\<lparr>delivered := written (bw e)\<rparr>, buf := []\<rparr>\<rparr>)"
  by (simp add: Flush_def bufio_Flush_healthy written_def)

lemma Encode_Flush_healthy:
  assumes "healthy (bw e)"
  obtains e1 e2 where "Encode (CustomPacketPtr p :: 'a Packet) e = (None, e1)" and "Flush e1 = (None, e2)"
    and "healthy (bw e2)" and "delivered (wr (bw e2)) = written (bw e) @ frame p"
    and "buf (bw e2) = []"
proof -
  obtain w where 1: "Encode (CustomPacketPtr p :: 'a Packet) e = (None, e\<lparr>bw := w\<rparr>)"
    and h: "healthy w" and c: "written w = written (bw e) @ frame p"
    using assms by (rule Encode_healthy)
  let ?e2 = "e\<lparr>bw := w\<lparr>wr := (wr w)\<lparr>delivered := written w\<rparr>, buf := []\<rparr>\<rparr>"
  have 2: "Flush (e\<lparr>bw := w\<rparr>) = (None, ?e2)"
    using h by (simp add: Flush_healthy)
  have "healthy (bw ?e2)" using h by (simp add: healthy_def)
  moreover have "delivered (wr (bw ?e2)) = written (bw e) @ frame p" by (simp add: c)
  moreover have "buf (bw ?e2) = []" by simp
  ultimately show ?thesis using 1 2 that by blast
qed

lemma fresh_healthy:
  "healthy (bw (defaultMessageEncoder \<lparr>delivered = bs, quota = None, failure = f\<rparr> n))"
  "written (bw (defaultMessageEncoder \<lparr>delivered = bs, quota = None, failure = f\<rparr> n)) = bs"
  by (simp_all add: healthy_def written_def defaultMessageEncoder_def NewWriterSize_def)

lemma fresh_Encode_Flush:
  obtains e1 e2 where
    "Encode (CustomPacketPtr p :: 'a Packet)
       (defaultMessageEncoder \<lparr>delivered = [], quota = None, failure = f\<rparr> n) = (None, e1)"
    and "Flush e1 = (None, e2)" and "delivered (wr (bw e2)) = frame p"
proof -
  let ?e = "defaultMessageEncoder \<lparr>delivered = [], quota = None, failure = f\<rparr> n"
  have "healthy (bw ?e)" by (rule fresh_healthy)
  then obtain e1 e2 where 1: "Encode (CustomPacketPtr p :: 'a Packet) ?e = (None, e1)"
    and 2: "Flush e1 = (None, e2)"
    and 3: "delivered (wr (bw e2)) = written (bw ?e) @ frame p"
    by (rule Encode_Flush_healthy)
  from 3 have "delivered (wr (bw e2)) = frame p" by (simp add: fresh_healthy)
  with 1 2 show ?thesis using that by blast
qed

lemma frame_update_body:
  "i < length (Body p) \<Longrightarrow> (frame p)[14 + i := x] = frame (p\<lparr>Body := (Body p)[i := x]\<rparr>)"
proof -
  assume "i < length (Body p)"
  have "(SOH p # encode_Header (Header p) @ Body p @ [EOH p])[Suc (13 + i) := x]
      = SOH p # encode_Header (Header p) @ (Body p)[i := x] @ [EOH p]"
    using \<open>i < length (Body p)\<close> by (simp add: list_update_append)
  then show ?thesis by (simp add: frame_def)
qed

lemma frame_checksum: "take 2 (drop 12 (frame p)) = PutUint16 (CheckSum (Header p))"
  by (simp add: frame_def encode_Header_def PutUint32_def PutUint16_def)

lemma length_frame: "length (frame p) = 15 + length (Body p)"
  by (simp add: frame_def)

lemma written_segment:
  assumes "frame p = A @ B @ C" and "written w = written b @ A"
    and "k \<le> length B" and "written w' = written w @ take k B"
  shows "written w' = written b @ take (length A + k) (frame p)"
    and "length A + k \<le> length (frame p)"
  using assms by simp_all

lemma Encode_written:
  obtains (ok) e' where "Encode (CustomPacketPtr p :: 'a Packet) e = (None, e')"
      and "written (bw e') = written (bw e) @ frame p"
  | (failed) x e' k where "Encode (CustomPacketPtr p :: 'a Packet) e = (Some x, e')"
      and "k \<le> length (frame p)" and "written (bw e') = written (bw e) @ take k (frame p)"
proof (cases rule: bufio_Write_cases [of "[SOH p]" "bw e"])
  case (failed x w1 k)
  have fr: "frame p = [] @ [SOH p] @ (encode_Header (Header p) @ Body p @ [EOH p])"
    by (simp add: frame_def)
  have "Encode (CustomPacketPtr p :: 'a Packet) e = (Some x, e\<lparr>bw := w1\<rparr>)"
    using failed by (simp add: Encode_def)
  moreover have "length ([] :: uint8 list) + k \<le> length (frame p)"
    using fr _ failed(2) failed(3) by (rule written_segment) simp
  moreover have "written (bw (e\<lparr>bw := w1\<rparr>))
      = written (bw e) @ take (length ([] :: uint8 list) + k) (frame p)"
    using written_segment(1) [OF fr _ failed(2), of "bw e" "bw e" w1] failed(3) by simp
  ultimately show ?thesis by (rule that(2))
next
  case 1: (ok w1)
  show ?thesis
  proof (cases rule: bufio_Write_cases [of "encode_Header (Header p)" w1])
    case (failed x w2 k)
    have fr: "frame p = [SOH p] @ encode_Header (Header p) @ (Body p @ [EOH p])"
      by (simp add: frame_def)
    have "Encode (CustomPacketPtr p :: 'a Packet) e = (Some x, e\<lparr>bw := w2\<rparr>)"
      using failed by (simp add: Encode_def 1)
    moreover have "length [SOH p] + k \<le> length (frame p)"
      using fr 1(2) failed(2) failed(3) by (rule written_segment)
    moreover have "written (bw (e\<lparr>bw := w2\<rparr>))
        = written (bw e) @ take (length [SOH p] + k) (frame p)"
      using written_segment(1) [OF fr 1(2) failed(2) failed(3)] by simp
    ultimately show ?thesis by (rule that(2))
  next
    case 2: (ok w2)
    have w2: "written w2 = written (bw e) @ ([SOH p] @ encode_Header (Header p))"
      using 1(2) 2(2) by simp
    show ?thesis
    proof (cases rule: bufio_Write_cases [of "Body p" w2])
      case (failed x w3 k)
      have fr: "frame p = ([SOH p] @ encode_Header (Header p)) @ Body p @ [EOH p]"
        by (simp add: frame_def)
      have "Encode (CustomPacketPtr p :: 'a Packet) e = (Some x, e\<lparr>bw := w3\<rparr>)"
        using failed by (simp add: Encode_def 1 2)
      moreover have "length ([SOH p] @ encode_Header (Header p)) + k \<le> length (frame p)"
        using fr w2 failed(2) failed(3) by (rule written_segment)
      moreover have "written (bw (e\<lparr>bw := w3\<rparr>))
          = written (bw e) @ take (length ([SOH p] @ encode_Header (Header p)) + k) (frame p)"
        using written_segment(1) [OF fr w2 failed(2) failed(3)] by simp
      ultimately show ?thesis by (rule that(2))
    next
      case 3: (ok w3)
      have w3: "written w3 = written (bw e) @ ([SOH p] @ encode_Header (Header p) @ Body p)"
        using w2 3(2) by simp
      show ?thesis
      proof (cases rule: bufio_Write_cases [of "[EOH p]" w3])
        case (failed x w4 k)
        have fr: "frame p = ([SOH p] @ encode_Header (Header p) @ Body p) @ [EOH p] @ []"
          by (simp add: frame_def)
        have "Encode (CustomPacketPtr p :: 'a Packet) e = (Some x, e\<lparr>bw := w4\<rparr>)"
          using failed by (simp add: Encode_def 1 2 3)
        moreover have "length ([SOH p] @ encode_Header (Header p) @ Body p) + k
            \<le> length (frame p)"
          using fr w3 failed(2) failed(3) by (rule written_segment)
        moreover have "written (bw (e\<lparr>bw := w4\<rparr>))
            = written (bw e)
                @ take (length ([SOH p] @ encode_Header (Header p) @ Body p) + k) (frame p)"
          using written_segment(1) [OF fr w3 failed(2) failed(3)] by simp
        ultimately show ?thesis by (rule that(2))
      next
        case 4: (ok w4)
        then have "Encode (CustomPacketPtr p :: 'a Packet) e = (None, e\<lparr>bw := w4\<rparr>)"
          by (simp add: Encode_def 1 2 3)
        moreover have "written (bw (e\<lparr>bw := w4\<rparr>)) = written (bw e) @ frame p"
          using w3 4(2) by (simp add: frame_def)
        ultimately show ?thesis by (rule that(1))
      qed
    qed
  qed
qed

section \<open>Properties\<close>

text \<open>
  In the statements below a fresh encoder is one made by \<open>defaultMessageEncoder\<close> over a
  transport that has delivered nothing yet and never fails, with any buffer size; the byte
  stream it produces is what the transport has been handed after \<open>Flush\<close>. A decoder is made
  by \<open>defaultMessageDecoder\<close> over a source that holds the given bytes and then reports the
  error \<open>c\<close>.
\<close>

text \<open>
  Claim C1 (round trip). For every \<open>CustomPacket\<close> whose \<open>PacketLen\<close> is
  \<open>HeaderLen + SohLen + EohLen\<close> plus the length of its body, that is 16 plus that length,
  \<open>Encode\<close> and \<open>Flush\<close> on a fresh encoder succeed, and \<open>Decode\<close> on the byte stream they
  produce returns a packet equal to the original in every field, leaving nothing unread.
\<close>

theorem roundtrip:
  assumes "unat (PacketLen (Header p)) = 16 + length (Body p)"
  shows "case Encode (CustomPacketPtr p :: 'a Packet)
              (defaultMessageEncoder \<lparr>delivered = [], quota = None, failure = f\<rparr> n) of
           (r1, e1) \<Rightarrow>
         (case Flush e1 of
           (r2, e2) \<Rightarrow>
             r1 = None \<and> r2 = None \<and>
             Decode (defaultMessageDecoder (delivered (wr (bw e2))) c m)
               = (Inr (CustomPacketPtr p :: 'b Packet), defaultMessageDecoder [] c m))"
proof -
  let ?e = "defaultMessageEncoder \<lparr>delivered = [], quota = None, failure = f\<rparr> n"
  have "healthy (bw ?e)" by (rule fresh_healthy)
  then obtain e1 e2 where 1: "Encode (CustomPacketPtr p :: 'a Packet) ?e = (None, e1)"
    and 2: "Flush e1 = (None, e2)"
    and 3: "delivered (wr (bw e2)) = written (bw ?e) @ frame p"
    by (rule Encode_Flush_healthy)
  have "delivered (wr (bw e2)) = frame p @ []"
    by (simp add: 3 fresh_healthy)
  then have "Decode (defaultMessageDecoder (delivered (wr (bw e2))) c m)
      = (Inr (CustomPacketPtr p :: 'b Packet), defaultMessageDecoder [] c m)"
    using Decode_frame_packet [OF assms, of "[]" c m] by simp
  then show ?thesis by (simp add: 1 2)
qed

text \<open>
  An instance: the body \<open>hello\<close> with \<open>PacketLen = 21\<close>, through a writer with a buffer of
  8 bytes.
\<close>

theorem roundtrip_witness:
  "unat (PacketLen (Header \<lparr>SOH = 1, Header = \<lparr>Seq = 7, ErrCode = 0, PacketLen = 21, Version = 1,
        CheckSum = 0\<rparr>, Body = [104, 101, 108, 108, 111], EOH = 2\<rparr>))
     = 16 + length (Body \<lparr>SOH = 1, Header = \<lparr>Seq = 7, ErrCode = 0, PacketLen = 21, Version = 1,
        CheckSum = 0\<rparr>, Body = [104, 101, 108, 108, 111], EOH = 2\<rparr>)
   \<and> (case Encode (CustomPacketPtr \<lparr>SOH = 1, Header = \<lparr>Seq = 7, ErrCode = 0, PacketLen = 21,
              Version = 1, CheckSum = 0\<rparr>, Body = [104, 101, 108, 108, 111], EOH = 2\<rparr> :: unit Packet)
              (defaultMessageEncoder \<lparr>delivered = [], quota = None, failure = ErrShortWrite\<rparr> 8) of
           (r1, e1) \<Rightarrow>
         (case Flush e1 of
           (r2, e2) \<Rightarrow>
             r1 = None \<and> r2 = None \<and>
             Decode (defaultMessageDecoder (delivered (wr (bw e2))) EOF 4096)
               = (Inr (CustomPacketPtr \<lparr>SOH = 1, Header = \<lparr>Seq = 7, ErrCode = 0, PacketLen = 21,
                    Version = 1, CheckSum = 0\<rparr>, Body = [104, 101, 108, 108, 111], EOH = 2\<rparr>
                    :: unit Packet),
                  defaultMessageDecoder [] EOF 4096)))"
  using roundtrip [where p = "\<lparr>SOH = 1, Header = \<lparr>Seq = 7, ErrCode = 0, PacketLen = 21,
        Version = 1, CheckSum = 0\<rparr>, Body = [104, 101, 108, 108, 111], EOH = 2\<rparr>"
        and f = ErrShortWrite and n = 8 and c = EOF and m = 4096 and ?'a = unit and ?'b = unit]
  by simp

text \<open>
  Claim C2 (declared length below the overhead), as the code has it. \<open>Decode\<close> does not check
  the declared length. For a header with \<open>PacketLen < 16\<close> the subtraction is done in
  \<open>uint32\<close> and wraps around: the body length is \<open>PacketLen + 2 ^ 32 - 16\<close>, and \<open>Decode\<close>
  goes on to read a body of that length. When fewer bytes follow the header, they are all
  consumed and \<open>Decode\<close> returns the read error of the source (the source's own error, or
  \<open>ErrUnexpectedEOF\<close> when the source ends with \<open>EOF\<close> after some bytes); when that many
  bytes and an end byte follow, \<open>Decode\<close> returns them as a packet.
\<close>

theorem short_length_wraps:
  assumes "unat (PacketLen h) < 16"
  shows "unat (bodyLen h) = unat (PacketLen h) + 2 ^ 32 - 16
    \<and> (length rest < unat (bodyLen h) \<longrightarrow>
         Decode (defaultMessageDecoder (s # encode_Header h @ rest) c m)
           = (Inl (if rest \<noteq> [] \<and> c = EOF then ErrUnexpectedEOF else c),
              defaultMessageDecoder [] c m))
    \<and> (length body = unat (bodyLen h) \<longrightarrow>
         Decode (defaultMessageDecoder (s # encode_Header h @ body @ t # rest') c m)
           = (Inr (CustomPacketPtr \<lparr>SOH = s, Header = h, Body = body, EOH = t\<rparr>),
              defaultMessageDecoder rest' c m))"
proof (intro conjI impI)
  show "unat (bodyLen h) = unat (PacketLen h) + 2 ^ 32 - 16"
    using assms by (simp add: unat_bodyLen)
next
  assume "length rest < unat (bodyLen h)"
  then show "Decode (defaultMessageDecoder (s # encode_Header h @ rest) c m)
           = (Inl (if rest \<noteq> [] \<and> c = EOF then ErrUnexpectedEOF else c),
              defaultMessageDecoder [] c m)"
    unfolding default_decoder by (rule Decode_body_short)
next
  assume "length body = unat (bodyLen h)"
  then have "unat (bodyLen h) = length body" by simp
  then show "Decode (defaultMessageDecoder (s # encode_Header h @ body @ t # rest') c m)
           = (Inr (CustomPacketPtr \<lparr>SOH = s, Header = h, Body = body, EOH = t\<rparr>),
              defaultMessageDecoder rest' c m)"
    by (rule Decode_default_frame)
qed

text \<open>
  An instance with \<open>PacketLen = 15\<close>: three bytes after the header, and a body of
  \<open>2 ^ 32 - 1\<close> bytes.
\<close>

theorem short_length_wraps_witness:
  "unat (PacketLen \<lparr>Seq = 1, ErrCode = 0, PacketLen = 15, Version = 1, CheckSum = 0\<rparr>) < 16
   \<and> unat (bodyLen \<lparr>Seq = 1, ErrCode = 0, PacketLen = 15, Version = 1, CheckSum = 0\<rparr>)
       = 4294967295
   \<and> length [9, 9, 9 :: uint8]
       < unat (bodyLen \<lparr>Seq = 1, ErrCode = 0, PacketLen = 15, Version = 1, CheckSum = 0\<rparr>)
   \<and> (Decode (defaultMessageDecoder [2, 0, 0, 0, 1, 0, 0, 0, 0, 0, 15, 1, 0, 0, 9, 9, 9] EOF 4096)
        :: (error + unit Packet) \<times> CustomPacketDecoder)
       = (Inl ErrUnexpectedEOF, defaultMessageDecoder [] EOF 4096)
   \<and> length (replicate 4294967295 (0 :: uint8))
       = unat (bodyLen \<lparr>Seq = 1, ErrCode = 0, PacketLen = 15, Version = 1, CheckSum = 0\<rparr>)
   \<and> (Decode (defaultMessageDecoder
          (2 # encode_Header \<lparr>Seq = 1, ErrCode = 0, PacketLen = 15, Version = 1, CheckSum = 0\<rparr>
             @ replicate 4294967295 0 @ 3 # []) EOF 4096)
        :: (error + unit Packet) \<times> CustomPacketDecoder)
       = (Inr (CustomPacketPtr \<lparr>SOH = 2, Header = \<lparr>Seq = 1, ErrCode = 0, PacketLen = 15,
            Version = 1, CheckSum = 0\<rparr>, Body = replicate 4294967295 0, EOH = 3\<rparr>),
          defaultMessageDecoder [] EOF 4096)"
proof -
  have h: "unat (PacketLen \<lparr>Seq = 1, ErrCode = 0, PacketLen = 15, Version = 1, CheckSum = 0\<rparr>) < 16"
    by simp
  have e: "encode_Header \<lparr>Seq = 1, ErrCode = 0, PacketLen = 15, Version = 1, CheckSum = 0\<rparr>
      = [0, 0, 0, 1, 0, 0, 0, 0, 0, 15, 1, 0, 0]"
    by (simp add: encode_Header_def PutUint32_def PutUint16_def)
  show ?thesis
    using short_length_wraps [OF h, where rest = "[9, 9, 9]" and s = 2 and c = EOF and m = 4096
        and body = "replicate 4294967295 0" and t = 3 and rest' = "[]" and ?'a = unit and ?'b = unit]
    by (simp add: e)
qed

text \<open>
  There is no malformed-length error: for a header that declares \<open>PacketLen = 15\<close>, followed by
  three bytes and the end of the stream, the body length is 4294967295, the three bytes are
  read as the beginning of the body, and the error is \<open>ErrUnexpectedEOF\<close>.
\<close>

theorem short_length_counterexample:
  "unat (bodyLen (decode_Header [0, 0, 0, 1, 0, 0, 0, 0, 0, 15, 1, 0, 0])) = 4294967295
   \<and> (Decode (defaultMessageDecoder
          ([2, 0, 0, 0, 1, 0, 0, 0, 0, 0, 15, 1, 0, 0] @ [9, 9, 9]) EOF 4096)
        :: (error + unit Packet) \<times> CustomPacketDecoder)
      = (Inl ErrUnexpectedEOF, defaultMessageDecoder [] EOF 4096)"
  by (simp add: Decode_def ReadFull_def decode_Header_def Uint32_def Uint16_def bodyLen_def
        HeaderLen_def SohLen_def EohLen_def defaultMessageDecoder_def NewReaderSize_def
        Let_def unsigned_minus_1_eq_mask mask_eq_exp_minus_1)

text \<open>
  Claim C3 (body length). The body length is \<open>PacketLen - 13 - 1 - 2\<close>, that is
  \<open>PacketLen - 16\<close>, in \<open>uint32\<close>. The encoder puts \<open>15 + L\<close> bytes on the wire for a body
  of \<open>L\<close> bytes, and that frame, whatever follows it, decodes to the original packet exactly
  when the body length computed from its \<open>PacketLen\<close> is \<open>L\<close>; for every length \<open>16 + L\<close>
  that the 32-bit field can hold this is exactly when \<open>PacketLen\<close> is \<open>16 + L\<close>.
\<close>

theorem body_length_derivation:
  "bodyLen h = PacketLen h - 13 - 1 - 2 \<and> bodyLen h = PacketLen h - 16 \<and>
    (case Encode (CustomPacketPtr p :: 'a Packet)
              (defaultMessageEncoder \<lparr>delivered = [], quota = None, failure = f\<rparr> n) of
           (r1, e1) \<Rightarrow>
         (case Flush e1 of
           (r2, e2) \<Rightarrow>
             r1 = None \<and> r2 = None \<and>
             length (delivered (wr (bw e2))) = 15 + length (Body p) \<and>
             (fst (Decode (defaultMessageDecoder (delivered (wr (bw e2)) @ rest) c m))
                  = Inr (CustomPacketPtr p :: 'b Packet)
              \<longleftrightarrow> unat (bodyLen (Header p)) = length (Body p)) \<and>
             (length (Body p) + 16 < 2 ^ 32 \<longrightarrow>
               (fst (Decode (defaultMessageDecoder (delivered (wr (bw e2)) @ rest) c m))
                    = Inr (CustomPacketPtr p :: 'b Packet)
                \<longleftrightarrow> unat (PacketLen (Header p)) = 16 + length (Body p)))))"
proof -
  obtain e1 e2 where 1: "Encode (CustomPacketPtr p :: 'a Packet)
       (defaultMessageEncoder \<lparr>delivered = [], quota = None, failure = f\<rparr> n) = (None, e1)"
    and 2: "Flush e1 = (None, e2)" and 3: "delivered (wr (bw e2)) = frame p"
    by (rule fresh_Encode_Flush)
  have iff: "fst (Decode (defaultMessageDecoder (frame p @ rest) c m))
        = Inr (CustomPacketPtr p :: 'b Packet)
     \<longleftrightarrow> unat (bodyLen (Header p)) = length (Body p)"
  proof
    assume "fst (Decode (defaultMessageDecoder (frame p @ rest) c m))
        = Inr (CustomPacketPtr p :: 'b Packet)"
    then obtain d' where "Decode (defaultMessageDecoder (frame p @ rest) c m)
        = (Inr (CustomPacketPtr p :: 'b Packet), d')"
      by (cases "Decode (defaultMessageDecoder (frame p @ rest) c m) :: (error + 'b Packet) \<times> _")
        simp
    then have "length (Body p) = unat (bodyLen (Header p))"
      by (rule Decode_body_length)
    then show "unat (bodyLen (Header p)) = length (Body p)" by simp
  next
    assume "unat (bodyLen (Header p)) = length (Body p)"
    then have "Decode (defaultMessageDecoder
          (SOH p # encode_Header (Header p) @ Body p @ EOH p # rest) c m)
       = (Inr (CustomPacketPtr \<lparr>SOH = SOH p, Header = Header p, Body = Body p, EOH = EOH p\<rparr>
            :: 'b Packet),
          defaultMessageDecoder rest c m)"
      by (rule Decode_default_frame)
    then show "fst (Decode (defaultMessageDecoder (frame p @ rest) c m))
        = Inr (CustomPacketPtr p :: 'b Packet)"
      by (cases p) (simp add: frame_def)
  qed
  have fits: "unat (bodyLen (Header p)) = length (Body p)
      \<longleftrightarrow> unat (PacketLen (Header p)) = 16 + length (Body p)"
    if "length (Body p) + 16 < 2 ^ 32"
    using that by (simp add: unat_bodyLen split: if_splits) arith
  have "bodyLen h = PacketLen h - 13 - 1 - 2"
    by (simp add: bodyLen_def HeaderLen_def SohLen_def EohLen_def)
  then show ?thesis
    using iff fits by (simp add: 1 2 3 length_frame bodyLen_16)
qed

text \<open>
  An instance: a body of 5 bytes with \<open>PacketLen = 21\<close> gives 20 bytes on the wire and
  decodes to the original packet.
\<close>

theorem body_length_derivation_witness:
  "length (Body \<lparr>SOH = 1, Header = \<lparr>Seq = 7, ErrCode = 0, PacketLen = 21, Version = 1,
        CheckSum = 0\<rparr>, Body = [104, 101, 108, 108, 111], EOH = 2\<rparr>) + 16 < (2::nat) ^ 32
   \<and> bodyLen \<lparr>Seq = 7, ErrCode = 0, PacketLen = 21, Version = 1, CheckSum = 0\<rparr> = 5
   \<and> (case Encode (CustomPacketPtr \<lparr>SOH = 1, Header = \<lparr>Seq = 7, ErrCode = 0, PacketLen = 21,
              Version = 1, CheckSum = 0\<rparr>, Body = [104, 101, 108, 108, 111], EOH = 2\<rparr> :: unit Packet)
              (defaultMessageEncoder \<lparr>delivered = [], quota = None, failure = ErrShortWrite\<rparr> 8) of
           (r1, e1) \<Rightarrow>
         (case Flush e1 of
           (r2, e2) \<Rightarrow>
             r1 = None \<and> r2 = None \<and>
             length (delivered (wr (bw e2))) = 20 \<and>
             fst (Decode (defaultMessageDecoder (delivered (wr (bw e2)) @ [1, 2, 3]) EOF 4096))
               = Inr (CustomPacketPtr \<lparr>SOH = 1, Header = \<lparr>Seq = 7, ErrCode = 0, PacketLen = 21,
                    Version = 1, CheckSum = 0\<rparr>, Body = [104, 101, 108, 108, 111], EOH = 2\<rparr>
                    :: unit Packet)))"
  using body_length_derivation [where p = "\<lparr>SOH = 1, Header = \<lparr>Seq = 7, ErrCode = 0,
        PacketLen = 21, Version = 1, CheckSum = 0\<rparr>, Body = [104, 101, 108, 108, 111], EOH = 2\<rparr>"
        and h = "\<lparr>Seq = 7, ErrCode = 0, PacketLen = 21, Version = 1, CheckSum = 0\<rparr>"
        and rest = "[1, 2, 3]"
        and f = ErrShortWrite and n = 8 and c = EOF and m = 4096 and ?'a = unit and ?'b = unit]
  by (simp split: prod.splits)

text \<open>
  The same body with \<open>PacketLen = 20\<close>, the number of bytes on the wire: \<open>Decode\<close> takes four
  bytes as the body and the fifth as the end byte, and leaves the end byte of the frame unread.
\<close>

lemma Decode_length_20:
  "(Decode (defaultMessageDecoder
       [1, 0, 0, 0, 7, 0, 0, 0, 0, 0, 20, 1, 0, 0, 104, 101, 108, 108, 111, 2] EOF 4096)
      :: (error + unit Packet) \<times> CustomPacketDecoder)
     = (Inr (CustomPacketPtr \<lparr>SOH = 1, Header = \<lparr>Seq = 7, ErrCode = 0, PacketLen = 20,
          Version = 1, CheckSum = 0\<rparr>, Body = [104, 101, 108, 108], EOH = 111\<rparr>),
        defaultMessageDecoder [2] EOF 4096)"
  by (simp add: Decode_def ReadFull_def decode_Header_def Uint32_def Uint16_def bodyLen_def
        HeaderLen_def SohLen_def EohLen_def defaultMessageDecoder_def NewReaderSize_def Let_def)

text \<open>
  Claim C4 (type mismatch). For a \<open>Packet\<close> that is not a \<open>*CustomPacket\<close>, \<open>Encode\<close>
  returns the error \<open>SelfPacketEncoder Encode occur error\<close> and leaves the encoder, its buffer
  and its transport as they were.
\<close>

theorem Encode_type_mismatch:
  "Encode (OtherPacket x) e = (Some (ErrorString ''SelfPacketEncoder Encode occur error''), e)"
  by (simp add: Encode_def)

text \<open>
  An instance with a fresh encoder.
\<close>

theorem Encode_type_mismatch_witness:
  "Encode (OtherPacket (0 :: nat))
      (defaultMessageEncoder \<lparr>delivered = [], quota = None, failure = ErrShortWrite\<rparr> 4096)
     = (Some (ErrorString ''SelfPacketEncoder Encode occur error''),
        defaultMessageEncoder \<lparr>delivered = [], quota = None, failure = ErrShortWrite\<rparr> 4096)"
  by (rule Encode_type_mismatch)

text \<open>
  Claim C5 (layout). \<open>Encode\<close> of a \<open>*CustomPacket\<close> appends to the bytes written so far,
  in this order: the start byte, the sequence (4 bytes), the error code (2 bytes), the frame
  length (4 bytes), the version (1 byte), the checksum (2 bytes), the body as it is, and the
  end byte. In every state of the encoder what is appended is a beginning of that byte string,
  and all of it when \<open>Encode\<close> returns no error, which is the case when the writer has no
  error set and the transport does not fail. When no error is set and the frame fits into the
  free part of the buffer, all of it is in the buffer and the transport has received nothing.
  Each number is written with its most significant byte first.
\<close>

theorem Encode_layout:
  "let F = [SOH p] @ PutUint32 (Seq (Header p)) @ PutUint16 (ErrCode (Header p))
             @ PutUint32 (PacketLen (Header p)) @ [Version (Header p)]
             @ PutUint16 (CheckSum (Header p)) @ Body p @ [EOH p]
   in case Encode (CustomPacketPtr p :: 'a Packet) e of
        (r, e') \<Rightarrow>
          (\<exists>k\<le>length F.
              delivered (wr (bw e')) @ buf (bw e')
                = delivered (wr (bw e)) @ buf (bw e) @ take k F) \<and>
          (r = None \<longrightarrow>
              delivered (wr (bw e')) @ buf (bw e') = delivered (wr (bw e)) @ buf (bw e) @ F) \<and>
          (werr (bw e) = None \<and> quota (wr (bw e)) = None \<longrightarrow> r = None) \<and>
          (werr (bw e) = None \<and> length F \<le> Available (bw e) \<longrightarrow>
              r = None \<and> wr (bw e') = wr (bw e) \<and> buf (bw e') = buf (bw e) @ F) \<and>
          map unat (PutUint32 (Seq (Header p)))
            = [unat (Seq (Header p)) div 2 ^ 24 mod 256, unat (Seq (Header p)) div 2 ^ 16 mod 256,
               unat (Seq (Header p)) div 2 ^ 8 mod 256, unat (Seq (Header p)) mod 256] \<and>
          map unat (PutUint16 (ErrCode (Header p)))
            = [unat (ErrCode (Header p)) div 2 ^ 8 mod 256, unat (ErrCode (Header p)) mod 256] \<and>
          map unat (PutUint32 (PacketLen (Header p)))
            = [unat (PacketLen (Header p)) div 2 ^ 24 mod 256,
               unat (PacketLen (Header p)) div 2 ^ 16 mod 256,
               unat (PacketLen (Header p)) div 2 ^ 8 mod 256,
               unat (PacketLen (Header p)) mod 256] \<and>
          map unat (PutUint16 (CheckSum (Header p)))
            = [unat (CheckSum (Header p)) div 2 ^ 8 mod 256,
               unat (CheckSum (Header p)) mod 256]"
proof -
  have fr: "[SOH p] @ PutUint32 (Seq (Header p)) @ PutUint16 (ErrCode (Header p))
             @ PutUint32 (PacketLen (Header p)) @ [Version (Header p)]
             @ PutUint16 (CheckSum (Header p)) @ Body p @ [EOH p] = frame p"
    by (simp add: frame_def encode_Header_def)
  obtain r e' where enc: "Encode (CustomPacketPtr p :: 'a Packet) e = (r, e')"
    by (cases "Encode (CustomPacketPtr p :: 'a Packet) e")
  have a: "\<exists>k\<le>length (frame p).
      delivered (wr (bw e')) @ buf (bw e') = delivered (wr (bw e)) @ buf (bw e) @ take k (frame p)"
    and b: "r = None \<longrightarrow>
      delivered (wr (bw e')) @ buf (bw e') = delivered (wr (bw e)) @ buf (bw e) @ frame p"
  proof -
    show "\<exists>k\<le>length (frame p).
      delivered (wr (bw e')) @ buf (bw e') = delivered (wr (bw e)) @ buf (bw e) @ take k (frame p)"
    proof (cases rule: Encode_written [of p e, where ?'a = 'a])
      case (ok e1)
      with enc have "length (frame p) \<le> length (frame p) \<and>
          delivered (wr (bw e')) @ buf (bw e')
            = delivered (wr (bw e)) @ buf (bw e) @ take (length (frame p)) (frame p)"
        by (simp add: written_def)
      then show ?thesis by (rule exI [of _ "length (frame p)"])
    next
      case (failed x e1 k)
      with enc have "k \<le> length (frame p) \<and>
          delivered (wr (bw e')) @ buf (bw e')
            = delivered (wr (bw e)) @ buf (bw e) @ take k (frame p)"
        by (simp add: written_def)
      then show ?thesis by (rule exI [of _ k])
    qed
    show "r = None \<longrightarrow>
      delivered (wr (bw e')) @ buf (bw e') = delivered (wr (bw e)) @ buf (bw e) @ frame p"
    proof (cases rule: Encode_written [of p e, where ?'a = 'a])
      case (ok e1)
      with enc show ?thesis by (simp add: written_def)
    next
      case (failed x e1 k)
      with enc have "r = Some x" by simp
      then show ?thesis by simp
    qed
  qed
  have c: "werr (bw e) = None \<and> quota (wr (bw e)) = None \<longrightarrow> r = None"
  proof
    assume "werr (bw e) = None \<and> quota (wr (bw e)) = None"
    then have "healthy (bw e)" by (simp add: healthy_def)
    then obtain w where "Encode (CustomPacketPtr p :: 'a Packet) e = (None, e\<lparr>bw := w\<rparr>)"
      by (rule Encode_healthy)
    with enc show "r = None" by simp
  qed
  have d: "werr (bw e) = None \<and> length (frame p) \<le> Available (bw e) \<longrightarrow>
      r = None \<and> wr (bw e') = wr (bw e) \<and> buf (bw e') = buf (bw e) @ frame p"
  proof
    assume h: "werr (bw e) = None \<and> length (frame p) \<le> Available (bw e)"
    then have "werr (bw e) = None" and "15 + length (Body p) \<le> Available (bw e)"
      by (simp_all add: length_frame)
    then have "Encode (CustomPacketPtr p :: 'a Packet) e
        = (None, e\<lparr>bw := (bw e)\<lparr>buf := buf (bw e) @ frame p\<rparr>\<rparr>)"
      by (rule Encode_fits)
    with enc have "r = None" and "e' = e\<lparr>bw := (bw e)\<lparr>buf := buf (bw e) @ frame p\<rparr>\<rparr>"
      by simp_all
    then show "r = None \<and> wr (bw e') = wr (bw e) \<and> buf (bw e') = buf (bw e) @ frame p"
      by simp
  qed
  show ?thesis
    unfolding Let_def fr enc prod.case
    using a b c d PutUint32_bytes PutUint16_bytes by (intro conjI)
qed

text \<open>
  An instance: the 20 bytes in the buffer for a packet with the body \<open>hello\<close>.
\<close>

theorem Encode_layout_witness:
  "werr (bw (defaultMessageEncoder \<lparr>delivered = [], quota = None, failure = ErrShortWrite\<rparr> 4096))
     = None
   \<and> quota (wr (bw (defaultMessageEncoder
          \<lparr>delivered = [], quota = None, failure = ErrShortWrite\<rparr> 4096))) = None
   \<and> 15 + length (Body \<lparr>SOH = 1, Header = \<lparr>Seq = 7, ErrCode = 258, PacketLen = 21, Version = 1,
        CheckSum = 772\<rparr>, Body = [104, 101, 108, 108, 111], EOH = 2\<rparr>)
       \<le> Available (bw (defaultMessageEncoder
            \<lparr>delivered = [], quota = None, failure = ErrShortWrite\<rparr> 4096))
   \<and> (case Encode (CustomPacketPtr \<lparr>SOH = 1, Header = \<lparr>Seq = 7, ErrCode = 258, PacketLen = 21,
              Version = 1, CheckSum = 772\<rparr>, Body = [104, 101, 108, 108, 111], EOH = 2\<rparr>
              :: unit Packet)
              (defaultMessageEncoder \<lparr>delivered = [], quota = None, failure = ErrShortWrite\<rparr>
                 4096) of
           (r, e') \<Rightarrow>
             r = None \<and> delivered (wr (bw e')) = [] \<and>
             buf (bw e') = [1, 0, 0, 0, 7, 1, 2, 0, 0, 0, 21, 1, 3, 4, 104, 101, 108, 108, 111, 2])"
  using Encode_layout [where e = "defaultMessageEncoder
          \<lparr>delivered = [], quota = None, failure = ErrShortWrite\<rparr> 4096"
        and p = "\<lparr>SOH = 1, Header = \<lparr>Seq = 7, ErrCode = 258, PacketLen = 21, Version = 1,
        CheckSum = 772\<rparr>, Body = [104, 101, 108, 108, 111], EOH = 2\<rparr>" and ?'a = unit]
  by (simp add: defaultMessageEncoder_def NewWriterSize_def Available_def PutUint32_def
        PutUint16_def Let_def split: prod.splits)

text \<open>
  Claim C6 (sentinels are not validated). A stream that consists of any start byte \<open>s\<close>, a
  header, a body of the declared length and any end byte \<open>t\<close> decodes successfully, and the
  packet returned holds \<open>s\<close> and \<open>t\<close> as they were read.
\<close>

theorem sentinels_not_validated:
  assumes "unat (PacketLen h) = 16 + length body"
  shows "Decode (defaultMessageDecoder (s # encode_Header h @ body @ t # rest) c m)
     = (Inr (CustomPacketPtr \<lparr>SOH = s, Header = h, Body = body, EOH = t\<rparr>),
        defaultMessageDecoder rest c m)"
proof -
  have "unat (bodyLen h) = length body"
    using assms by (rule unat_bodyLen_consistent)
  then show ?thesis by (rule Decode_default_frame)
qed

text \<open>
  An instance with the start byte 170 and the end byte 85.
\<close>

theorem sentinels_not_validated_witness:
  "unat (PacketLen \<lparr>Seq = 7, ErrCode = 0, PacketLen = 21, Version = 1, CheckSum = 0\<rparr>)
     = 16 + length [104, 101, 108, 108, 111 :: uint8]
   \<and> (Decode (defaultMessageDecoder
         [170, 0, 0, 0, 7, 0, 0, 0, 0, 0, 21, 1, 0, 0, 104, 101, 108, 108, 111, 85] EOF 4096)
        :: (error + unit Packet) \<times> CustomPacketDecoder)
     = (Inr (CustomPacketPtr \<lparr>SOH = 170, Header = \<lparr>Seq = 7, ErrCode = 0, PacketLen = 21,
          Version = 1, CheckSum = 0\<rparr>, Body = [104, 101, 108, 108, 111], EOH = 85\<rparr>),
        defaultMessageDecoder [] EOF 4096)"
  using sentinels_not_validated [where h = "\<lparr>Seq = 7, ErrCode = 0, PacketLen = 21, Version = 1,
        CheckSum = 0\<rparr>" and body = "[104, 101, 108, 108, 111]" and s = 170 and t = 85
        and rest = "[]" and c = EOF and m = 4096 and ?'a = unit]
  by (simp add: encode_Header_def PutUint32_def PutUint16_def)

text \<open>
  Claim C7 (truncated stream). When the source ends after the start byte and the 13 bytes of
  the header, \<open>Decode\<close> returns the error with which the source ends (\<open>EOF\<close> for a source that
  is closed) and no packet; there is no error of its own for a partial frame.
\<close>

theorem truncated_after_header:
  assumes "length bs = 14"
  shows "Decode (defaultMessageDecoder bs c m) = (Inl c, defaultMessageDecoder [] c m)"
  unfolding default_decoder using assms by (rule Decode_truncated)

text \<open>
  An instance: a header that declares a body of 5 bytes, and then the end of the stream.
\<close>

theorem truncated_after_header_witness:
  "length [1, 0, 0, 0, 7, 0, 0, 0, 0, 0, 21, 1, 0, 0 :: uint8] = 14
   \<and> (Decode (defaultMessageDecoder [1, 0, 0, 0, 7, 0, 0, 0, 0, 0, 21, 1, 0, 0] EOF 4096)
        :: (error + unit Packet) \<times> CustomPacketDecoder)
     = (Inl EOF, defaultMessageDecoder [] EOF 4096)"
  using truncated_after_header [where bs = "[1, 0, 0, 0, 7, 0, 0, 0, 0, 0, 21, 1, 0, 0]"
        and c = EOF and m = 4096 and ?'a = unit]
  by simp

text \<open>
  Claim C8 (no checksum). \<open>Encode\<close> writes the \<open>CheckSum\<close> field as the caller has set it, and
  \<open>Decode\<close> does not verify it: when one byte of the body of an encoded frame is replaced by
  another value, \<open>Decode\<close> succeeds and returns the packet with that byte in its body.
\<close>

theorem corrupted_body_byte:
  assumes "unat (PacketLen (Header p)) = 16 + length (Body p)" and "i < length (Body p)"
  shows "case Encode (CustomPacketPtr p :: 'a Packet)
              (defaultMessageEncoder \<lparr>delivered = [], quota = None, failure = f\<rparr> n) of
           (r1, e1) \<Rightarrow>
         (case Flush e1 of
           (r2, e2) \<Rightarrow>
             r1 = None \<and> r2 = None \<and>
             take 2 (drop 12 (delivered (wr (bw e2)))) = PutUint16 (CheckSum (Header p)) \<and>
             Decode (defaultMessageDecoder ((delivered (wr (bw e2)))[14 + i := x]) c m)
               = (Inr (CustomPacketPtr (p\<lparr>Body := (Body p)[i := x]\<rparr>) :: 'b Packet),
                  defaultMessageDecoder [] c m))"
proof -
  obtain e1 e2 where 1: "Encode (CustomPacketPtr p :: 'a Packet)
       (defaultMessageEncoder \<lparr>delivered = [], quota = None, failure = f\<rparr> n) = (None, e1)"
    and 2: "Flush e1 = (None, e2)" and 3: "delivered (wr (bw e2)) = frame p"
    by (rule fresh_Encode_Flush)
  let ?q = "p\<lparr>Body := (Body p)[i := x]\<rparr>"
  have "unat (PacketLen (Header ?q)) = 16 + length (Body ?q)"
    using assms(1) by simp
  then have "Decode (defaultMessageDecoder (frame ?q @ []) c m)
      = (Inr (CustomPacketPtr ?q :: 'b Packet), defaultMessageDecoder [] c m)"
    by (rule Decode_frame_packet)
  then have "Decode (defaultMessageDecoder ((frame p)[14 + i := x]) c m)
      = (Inr (CustomPacketPtr ?q :: 'b Packet), defaultMessageDecoder [] c m)"
    using assms(2) by (simp add: frame_update_body)
  then show ?thesis by (simp add: 1 2 3 frame_checksum)
qed

text \<open>
  An instance: the second byte of the body \<open>hello\<close> replaced by 255.
\<close>

theorem corrupted_body_byte_witness:
  "unat (PacketLen (Header \<lparr>SOH = 1, Header = \<lparr>Seq = 7, ErrCode = 0, PacketLen = 21, Version = 1,
        CheckSum = 0\<rparr>, Body = [104, 101, 108, 108, 111], EOH = 2\<rparr>))
     = 16 + length (Body \<lparr>SOH = 1, Header = \<lparr>Seq = 7, ErrCode = 0, PacketLen = 21, Version = 1,
        CheckSum = 0\<rparr>, Body = [104, 101, 108, 108, 111], EOH = 2\<rparr>)
   \<and> 1 < length (Body \<lparr>SOH = 1, Header = \<lparr>Seq = 7, ErrCode = 0, PacketLen = 21, Version = 1,
        CheckSum = 0\<rparr>, Body = [104, 101, 108, 108, 111], EOH = 2\<rparr>)
   \<and> (case Encode (CustomPacketPtr \<lparr>SOH = 1, Header = \<lparr>Seq = 7, ErrCode = 0, PacketLen = 21,
              Version = 1, CheckSum = 0\<rparr>, Body = [104, 101, 108, 108, 111], EOH = 2\<rparr> :: unit Packet)
              (defaultMessageEncoder \<lparr>delivered = [], quota = None, failure = ErrShortWrite\<rparr> 8) of
           (r1, e1) \<Rightarrow>
         (case Flush e1 of
           (r2, e2) \<Rightarrow>
             r1 = None \<and> r2 = None \<and>
             take 2 (drop 12 (delivered (wr (bw e2)))) = [0, 0] \<and>
             Decode (defaultMessageDecoder ((delivered (wr (bw e2)))[15 := 255]) EOF 4096)
               = (Inr (CustomPacketPtr \<lparr>SOH = 1, Header = \<lparr>Seq = 7, ErrCode = 0, PacketLen = 21,
                    Version = 1, CheckSum = 0\<rparr>, Body = [104, 255, 108, 108, 111], EOH = 2\<rparr>
                    :: unit Packet),
                  defaultMessageDecoder [] EOF 4096)))"
  using corrupted_body_byte [where p = "\<lparr>SOH = 1, Header = \<lparr>Seq = 7, ErrCode = 0, PacketLen = 21,
        Version = 1, CheckSum = 0\<rparr>, Body = [104, 101, 108, 108, 111], EOH = 2\<rparr>"
        and i = 1 and x = 255
        and f = ErrShortWrite and n = 8 and c = EOF and m = 4096 and ?'a = unit and ?'b = unit]
  by (simp add: PutUint16_def)

text \<open>
  Claim C9 (two frames). Two packets with consistent lengths, each encoded and flushed on the
  same fresh encoder, give one byte stream from which two successive calls of \<open>Decode\<close> return
  the first packet and then the second, each equal to its original, leaving nothing unread.
\<close>

theorem two_frames:
  assumes "unat (PacketLen (Header p1)) = 16 + length (Body p1)"
    and "unat (PacketLen (Header p2)) = 16 + length (Body p2)"
  shows "case Encode (CustomPacketPtr p1 :: 'a Packet)
              (defaultMessageEncoder \<lparr>delivered = [], quota = None, failure = f\<rparr> n) of
           (r1, e1) \<Rightarrow>
         (case Flush e1 of
           (r2, e2) \<Rightarrow>
         (case Encode (CustomPacketPtr p2 :: 'a Packet) e2 of
           (r3, e3) \<Rightarrow>
         (case Flush e3 of
           (r4, e4) \<Rightarrow>
             r1 = None \<and> r2 = None \<and> r3 = None \<and> r4 = None \<and>
             (case Decode (defaultMessageDecoder (delivered (wr (bw e4))) c m) of
                (q1, d1) \<Rightarrow>
              (case Decode d1 of
                (q2, d2) \<Rightarrow>
                  q1 = Inr (CustomPacketPtr p1 :: 'b Packet) \<and>
                  q2 = Inr (CustomPacketPtr p2 :: 'b Packet) \<and>
                  d2 = defaultMessageDecoder [] c m)))))"
proof -
  let ?e = "defaultMessageEncoder \<lparr>delivered = [], quota = None, failure = f\<rparr> n"
  have "healthy (bw ?e)" by (rule fresh_healthy)
  then obtain e1 e2 where 1: "Encode (CustomPacketPtr p1 :: 'a Packet) ?e = (None, e1)"
    and 2: "Flush e1 = (None, e2)" and h2: "healthy (bw e2)"
    and s2: "delivered (wr (bw e2)) = written (bw ?e) @ frame p1"
    and b2: "buf (bw e2) = []"
    by (rule Encode_Flush_healthy)
  from h2 obtain e3 e4 where 3: "Encode (CustomPacketPtr p2 :: 'a Packet) e2 = (None, e3)"
    and 4: "Flush e3 = (None, e4)"
    and s4: "delivered (wr (bw e4)) = written (bw e2) @ frame p2"
    by (rule Encode_Flush_healthy)
  have s: "delivered (wr (bw e4)) = frame p1 @ frame p2"
    by (simp add: s4 written_def s2 b2 defaultMessageEncoder_def NewWriterSize_def)
  have d1: "Decode (defaultMessageDecoder (frame p1 @ frame p2) c m)
      = (Inr (CustomPacketPtr p1 :: 'b Packet), defaultMessageDecoder (frame p2) c m)"
    using assms(1) by (rule Decode_frame_packet)
  have d2: "Decode (defaultMessageDecoder (frame p2) c m)
      = (Inr (CustomPacketPtr p2 :: 'b Packet), defaultMessageDecoder [] c m)"
    using Decode_frame_packet [OF assms(2), of "[]" c m] by simp
  show ?thesis by (simp add: 1 2 3 4 s d1 d2)
qed

text \<open>
  An instance: a packet with the body \<open>hello\<close> followed by a packet with an empty body.
\<close>

theorem two_frames_witness:
  "unat (PacketLen (Header \<lparr>SOH = 1, Header = \<lparr>Seq = 7, ErrCode = 0, PacketLen = 21, Version = 1,
        CheckSum = 0\<rparr>, Body = [104, 101, 108, 108, 111], EOH = 2\<rparr>))
     = 16 + length (Body \<lparr>SOH = 1, Header = \<lparr>Seq = 7, ErrCode = 0, PacketLen = 21, Version = 1,
        CheckSum = 0\<rparr>, Body = [104, 101, 108, 108, 111], EOH = 2\<rparr>)
   \<and> unat (PacketLen (Header \<lparr>SOH = 1, Header = \<lparr>Seq = 8, ErrCode = 3, PacketLen = 16,
        Version = 1, CheckSum = 0\<rparr>, Body = [], EOH = 2\<rparr>))
     = 16 + length (Body \<lparr>SOH = 1, Header = \<lparr>Seq = 8, ErrCode = 3, PacketLen = 16, Version = 1,
        CheckSum = 0\<rparr>, Body = [], EOH = 2\<rparr>)
   \<and> (case Encode (CustomPacketPtr \<lparr>SOH = 1, Header = \<lparr>Seq = 7, ErrCode = 0, PacketLen = 21,
              Version = 1, CheckSum = 0\<rparr>, Body = [104, 101, 108, 108, 111], EOH = 2\<rparr> :: unit Packet)
              (defaultMessageEncoder \<lparr>delivered = [], quota = None, failure = ErrShortWrite\<rparr> 8) of
           (r1, e1) \<Rightarrow>
         (case Flush e1 of
           (r2, e2) \<Rightarrow>
         (case Encode (CustomPacketPtr \<lparr>SOH = 1, Header = \<lparr>Seq = 8, ErrCode = 3, PacketLen = 16,
              Version = 1, CheckSum = 0\<rparr>, Body = [], EOH = 2\<rparr> :: unit Packet) e2 of
           (r3, e3) \<Rightarrow>
         (case Flush e3 of
           (r4, e4) \<Rightarrow>
             r1 = None \<and> r2 = None \<and> r3 = None \<and> r4 = None \<and>
             (case Decode (defaultMessageDecoder (delivered (wr (bw e4))) EOF 4096) of
                (q1, d1) \<Rightarrow>
              (case Decode d1 of
                (q2, d2) \<Rightarrow>
                  q1 = Inr (CustomPacketPtr \<lparr>SOH = 1, Header = \<lparr>Seq = 7, ErrCode = 0,
                    PacketLen = 21, Version = 1, CheckSum = 0\<rparr>, Body = [104, 101, 108, 108, 111],
                    EOH = 2\<rparr> :: unit Packet) \<and>
                  q2 = Inr (CustomPacketPtr \<lparr>SOH = 1, Header = \<lparr>Seq = 8, ErrCode = 3,
                    PacketLen = 16, Version = 1, CheckSum = 0\<rparr>, Body = [], EOH = 2\<rparr>
                    :: unit Packet) \<and>
                  d2 = defaultMessageDecoder [] EOF 4096))))))"
  using two_frames [where ?p1.0 = "\<lparr>SOH = 1, Header = \<lparr>Seq = 7, ErrCode = 0, PacketLen = 21,
        Version = 1, CheckSum = 0\<rparr>, Body = [104, 101, 108, 108, 111], EOH = 2\<rparr>"
        and ?p2.0 = "\<lparr>SOH = 1, Header = \<lparr>Seq = 8, ErrCode = 3, PacketLen = 16,
        Version = 1, CheckSum = 0\<rparr>, Body = [], EOH = 2\<rparr>"
        and f = ErrShortWrite and n = 8 and c = EOF and m = 4096 and ?'a = unit and ?'b = unit]
  by simp

text \<open>
  Claim C10 (\<open>SetErrCode\<close>). \<open>SetErrCode\<close> takes a 32-bit code and stores it in the 16-bit
  field \<open>ErrCode\<close> by truncation: afterwards \<open>ErrCode\<close> is the code modulo \<open>2 ^ 16\<close>, and no
  other field of the packet has changed.
\<close>

theorem SetErrCode_truncates:
  "unat (ErrCode (Header (SetErrCode code p))) = unat code mod 2 ^ 16
   \<and> SOH (SetErrCode code p) = SOH p
   \<and> Seq (Header (SetErrCode code p)) = Seq (Header p)
   \<and> PacketLen (Header (SetErrCode code p)) = PacketLen (Header p)
   \<and> Version (Header (SetErrCode code p)) = Version (Header p)
   \<and> CheckSum (Header (SetErrCode code p)) = CheckSum (Header p)
   \<and> Body (SetErrCode code p) = Body p
   \<and> EOH (SetErrCode code p) = EOH p
   \<and> SetErrCode code p = p\<lparr>Header := (Header p)\<lparr>ErrCode := ucast code\<rparr>\<rparr>"
  by (simp add: SetErrCode_def unsigned_ucast_eq take_bit_eq_mod)

text \<open>
  An instance: the code 74565 (hexadecimal 12345) is stored as 9029 (hexadecimal 2345).
\<close>

theorem SetErrCode_truncates_witness:
  "unat (ErrCode (Header (SetErrCode 74565 \<lparr>SOH = 1, Header = \<lparr>Seq = 7, ErrCode = 0,
        PacketLen = 21, Version = 1, CheckSum = 0\<rparr>, Body = [104, 101, 108, 108, 111], EOH = 2\<rparr>)))
     = 9029"
  using SetErrCode_truncates [of 74565 "\<lparr>SOH = 1, Header = \<lparr>Seq = 7, ErrCode = 0,
        PacketLen = 21, Version = 1, CheckSum = 0\<rparr>, Body = [104, 101, 108, 108, 111], EOH = 2\<rparr>"]
  by simp

end
